theory Spec2Isabelle
  imports Main "HOL-Library.Sublist" "HOL-Library.Word"
begin

section \<open>Strings\<close>

text \<open>
  The server (\<^verbatim>\<open>src/index.ts\<close>) works on JavaScript strings, which are sequences of
  16-bit code units; the regular expressions of the source have no \<^verbatim>\<open>u\<close> flag and work
  on code units too. A string is modelled as a list of 16-bit words. \<open>js\<close> turns a
  literal of ASCII characters into such a list.
\<close>

type_synonym jchar = "16 word"

type_synonym jstring = "jchar list"

definition unit_of :: "char \<Rightarrow> jchar" where
  "unit_of c = of_nat (of_char c)"

definition js :: "string \<Rightarrow> jstring" where
  "js s = map unit_of s"

lemma length_js [simp]: "length (js s) = length s"
  by (simp add: js_def)

text \<open>Different literals give different strings.\<close>

lemma of_char_lt: "(of_char c :: nat) < 65536"
  using nat_of_char_less_256 [of c] by linarith

lemma unit_of_eq_iff [simp]: "unit_of a = unit_of b \<longleftrightarrow> a = b"
proof
  assume "unit_of a = unit_of b"
  then have "take_bit 16 (of_char a :: nat) = take_bit 16 (of_char b :: nat)"
    by (simp add: unit_of_def word_of_nat_eq_iff)
  then have "(of_char a :: nat) = of_char b"
    using of_char_lt [of a] of_char_lt [of b] by (simp add: take_bit_nat_eq_self)
  then show "a = b"
    by simp
qed simp

lemma js_eq_iff [simp]: "js a = js b \<longleftrightarrow> a = b"
  by (simp add: js_def inj_def)

lemma js_eq_Nil_iff [simp]: "js a = [] \<longleftrightarrow> a = []"
  by (simp add: js_def)

lemma Nil_eq_js_iff [simp]: "[] = js a \<longleftrightarrow> a = []"
  by (simp add: js_def)

abbreviation backtick :: jchar where
  "backtick \<equiv> 0x60"

abbreviation newline :: jchar where
  "newline \<equiv> 0x0A"

text \<open>
  \<^verbatim>\<open>\s\<close> and the characters \<^verbatim>\<open>trim\<close> strips are the white space and the line
  terminators of ECMAScript: tab, line feed, vertical tab, form feed, carriage return,
  space, no-break space, U+1680, U+2000 to U+200A, U+2028, U+2029, U+202F, U+205F, U+3000
  and U+FEFF.
\<close>

definition is_space :: "jchar \<Rightarrow> bool" where
  "is_space c =
     (c = 0x09 \<or> c = 0x0A \<or> c = 0x0B \<or> c = 0x0C \<or> c = 0x0D \<or> c = 0x20 \<or> c = 0xA0 \<or>
      c = 0x1680 \<or> (0x2000 \<le> c \<and> c \<le> 0x200A) \<or> c = 0x2028 \<or> c = 0x2029 \<or>
      c = 0x202F \<or> c = 0x205F \<or> c = 0x3000 \<or> c = 0xFEFF)"

text \<open>\<^verbatim>\<open>\w\<close> is \<^verbatim>\<open>[A-Za-z0-9_]\<close>.\<close>

definition is_word :: "jchar \<Rightarrow> bool" where
  "is_word c =
     ((0x30 \<le> c \<and> c \<le> 0x39) \<or> (0x41 \<le> c \<and> c \<le> 0x5A) \<or> (0x61 \<le> c \<and> c \<le> 0x7A) \<or>
      c = 0x5F)"

definition trim :: "jstring \<Rightarrow> jstring" where
  "trim s = rev (dropWhile is_space (rev (dropWhile is_space s)))"

text \<open>\<^verbatim>\<open>s.includes(pat)\<close>: \<open>pat\<close> occurs in \<open>s\<close> as a contiguous run.\<close>

fun str_includes :: "jstring \<Rightarrow> jstring \<Rightarrow> bool" where
  "str_includes [] pat = (pat = [])"
| "str_includes (x # xs) pat = (prefix pat (x # xs) \<or> str_includes xs pat)"

text \<open>\<^verbatim>\<open>lines.join(sep)\<close>.\<close>

fun join :: "jstring \<Rightarrow> jstring list \<Rightarrow> jstring" where
  "join sep [] = []"
| "join sep [l] = l"
| "join sep (l # m # ls) = l @ sep @ join sep (m # ls)"

text \<open>The decimal numeral a template literal prints for a non-negative integer.\<close>

definition digit_char :: "nat \<Rightarrow> jchar" where
  "digit_char d = of_nat (48 + d)"

function string_of_nat :: "nat \<Rightarrow> jstring" where
  "string_of_nat n = (if n < 10 then [digit_char n] else string_of_nat (n div 10) @ [digit_char (n mod 10)])"
  by pat_completeness auto
termination
  by (relation "measure id") auto

declare string_of_nat.simps [simp del]

section \<open>Regular expressions\<close>

text \<open>
  The four regular expressions of \<^verbatim>\<open>extractCodeBlocks\<close> are built from literals,
  character classes under a greedy \<^verbatim>\<open>+\<close> or a lazy \<^verbatim>\<open>*?\<close>, sequence, alternation,
  a greedy optional group and capture groups. A JavaScript matcher backtracks: at a
  position it explores the ways of matching in a fixed priority order (left alternative
  first, greedy longest first, lazy shortest first) and takes the first that lets the
  whole expression match. \<open>matches r s c\<close> lists, in that priority order, every way
  of matching \<open>r\<close> at the start of \<open>s\<close>: the input left over and the captures.
\<close>

datatype cclass =
    AnyChar       \<comment> \<open>\<^verbatim>\<open>[\s\S]\<close>\<close>
  | WordChar      \<comment> \<open>\<^verbatim>\<open>\w\<close>\<close>
  | NotBacktick   \<comment> \<open>a class excluding only the backtick\<close>
  | TagChar       \<comment> \<open>\<^verbatim>\<open>[\w\s="']\<close>\<close>

fun in_class :: "cclass \<Rightarrow> jchar \<Rightarrow> bool" where
  "in_class AnyChar c = True"
| "in_class WordChar c = is_word c"
| "in_class NotBacktick c = (c \<noteq> backtick)"
| "in_class TagChar c = (is_word c \<or> is_space c \<or> c = 0x3D \<or> c = 0x22 \<or> c = 0x27)"

datatype regex =
    Lit jstring          \<comment> \<open>a literal run of characters\<close>
  | Plus cclass          \<comment> \<open>\<^verbatim>\<open>c+\<close>, greedy\<close>
  | LazyStar cclass      \<comment> \<open>\<^verbatim>\<open>c*?\<close>, lazy\<close>
  | Seq regex regex
  | Alt regex regex      \<comment> \<open>\<^verbatim>\<open>a|b\<close>\<close>
  | Opt regex            \<comment> \<open>\<^verbatim>\<open>(?:a)?\<close>, greedy\<close>
  | Group nat regex      \<comment> \<open>capture group number \<open>n\<close>\<close>

type_synonym captures = "(nat \<times> jstring) list"

text \<open>The inputs left after \<^verbatim>\<open>c*\<close> (longest run first), \<^verbatim>\<open>c+\<close> and \<^verbatim>\<open>c*?\<close>
  (shortest run first).\<close>

fun greedy_star :: "(jchar \<Rightarrow> bool) \<Rightarrow> jstring \<Rightarrow> jstring list" where
  "greedy_star p [] = [[]]"
| "greedy_star p (x # xs) = (if p x then greedy_star p xs else []) @ [x # xs]"

fun greedy_plus :: "(jchar \<Rightarrow> bool) \<Rightarrow> jstring \<Rightarrow> jstring list" where
  "greedy_plus p [] = []"
| "greedy_plus p (x # xs) = (if p x then greedy_star p xs else [])"

fun lazy_star :: "(jchar \<Rightarrow> bool) \<Rightarrow> jstring \<Rightarrow> jstring list" where
  "lazy_star p [] = [[]]"
| "lazy_star p (x # xs) = (x # xs) # (if p x then lazy_star p xs else [])"

fun matches :: "regex \<Rightarrow> jstring \<Rightarrow> captures \<Rightarrow> (jstring \<times> captures) list" where
  "matches (Lit l) s c = (if prefix l s then [(drop (length l) s, c)] else [])"
| "matches (Plus k) s c = map (\<lambda>r. (r, c)) (greedy_plus (in_class k) s)"
| "matches (LazyStar k) s c = map (\<lambda>r. (r, c)) (lazy_star (in_class k) s)"
| "matches (Seq a b) s c = concat (map (\<lambda>(r, c'). matches b r c') (matches a s c))"
| "matches (Alt a b) s c = matches a s c @ matches b s c"
| "matches (Opt a) s c = matches a s c @ [(s, c)]"
| "matches (Group n a) s c =
     map (\<lambda>(r, c'). (r, (n, take (length s - length r) s) # c')) (matches a s c)"

text \<open>
  A match object: where the match starts (counted from the start of the searched
  text), the matched text, the captures, and the text after the match.
\<close>

record rmatch =
  start :: nat
  matched :: jstring
  groups :: captures
  rest :: jstring

text \<open>The match at the start of \<open>s\<close>, if there is one: the first way in priority order.\<close>

definition match_here :: "regex \<Rightarrow> jstring \<Rightarrow> rmatch option" where
  "match_here r s =
     (case matches r s [] of
        [] \<Rightarrow> None
      | (s', c) # _ \<Rightarrow>
          Some \<lparr>start = 0, matched = take (length s - length s') s, groups = c, rest = s'\<rparr>)"

text \<open>\<^verbatim>\<open>regex.exec(s)\<close> from the start of \<open>s\<close>: the leftmost position with a match,
  the end of the text included.\<close>

fun exec :: "regex \<Rightarrow> jstring \<Rightarrow> rmatch option" where
  "exec r [] = match_here r []"
| "exec r (x # xs) =
     (case match_here r (x # xs) of
        Some m \<Rightarrow> Some m
      | None \<Rightarrow> map_option (\<lambda>m. m\<lparr>start := Suc (start m)\<rparr>) (exec r xs))"

text \<open>\<^verbatim>\<open>match[n]\<close>: the text of capture group \<open>n\<close>, or undefined.\<close>

definition group :: "rmatch \<Rightarrow> nat \<Rightarrow> jstring option" where
  "group m n = map_of (groups m) n"


text \<open>What is left over is always a tail of the input, shorter by at least the least
  number of characters the expression consumes.\<close>

fun min_len :: "regex \<Rightarrow> nat" where
  "min_len (Lit l) = length l"
| "min_len (Plus k) = 1"
| "min_len (LazyStar k) = 0"
| "min_len (Seq a b) = min_len a + min_len b"
| "min_len (Alt a b) = min (min_len a) (min_len b)"
| "min_len (Opt a) = 0"
| "min_len (Group n a) = min_len a"

lemma greedy_star_suffix: "r \<in> set (greedy_star p s) \<Longrightarrow> suffix r s"
  by (induction s) (auto simp: suffix_Cons split: if_splits)

lemma greedy_plus_suffix:
  assumes "r \<in> set (greedy_plus p s)"
  shows "suffix r s \<and> length r < length s"
proof (cases s)
  case Nil
  with assms show ?thesis by simp
next
  case (Cons x xs)
  with assms have "r \<in> set (greedy_star p xs)"
    by (auto split: if_splits)
  then have "suffix r xs"
    by (rule greedy_star_suffix)
  with Cons show ?thesis
    by (auto simp: suffix_Cons dest: suffix_length_le)
qed

lemma lazy_star_suffix: "r \<in> set (lazy_star p s) \<Longrightarrow> suffix r s"
  by (induction s) (auto simp: suffix_Cons split: if_splits)

lemma matches_suffix:
  "(s', c') \<in> set (matches r s c) \<Longrightarrow> suffix s' s \<and> length s' + min_len r \<le> length s"
proof (induction r arbitrary: s c s' c')
  case (Lit l)
  then show ?case
    by (auto simp: suffix_drop prefix_length_le split: if_splits)
next
  case (Plus k)
  then show ?case
    using greedy_plus_suffix [of s' "in_class k" s] by auto
next
  case (LazyStar k)
  then show ?case
    using lazy_star_suffix [of s' "in_class k" s] by (auto dest: suffix_length_le)
next
  case (Seq a b)
  from Seq.prems obtain r1 c1 where
    a: "(r1, c1) \<in> set (matches a s c)" and b: "(s', c') \<in> set (matches b r1 c1)"
    by auto
  from Seq.IH(1) [OF a] Seq.IH(2) [OF b] show ?case
    by (auto intro: suffix_order.trans)
next
  case (Alt a b)
  from Alt.prems have "(s', c') \<in> set (matches a s c) \<or> (s', c') \<in> set (matches b s c)"
    by auto
  then show ?case
    using Alt.IH(1) [of s' c' s c] Alt.IH(2) [of s' c' s c] by auto
next
  case (Opt a)
  from Opt.prems have "(s', c') \<in> set (matches a s c) \<or> s' = s"
    by auto
  then show ?case
    using Opt.IH [of s' c' s c] by auto
next
  case (Group n a)
  from Group.prems obtain c1 where "(s', c1) \<in> set (matches a s c)"
    by auto
  then show ?case
    using Group.IH [of s' c1 s c] by auto
qed

lemma suffix_take_append: "suffix s' s \<Longrightarrow> take (length s - length s') s @ s' = s"
  by (auto simp: suffix_def)

lemma match_here_Some:
  assumes "match_here r s = Some m"
  shows "start m = 0" and "matched m @ rest m = s" and "length (rest m) + min_len r \<le> length s"
proof -
  from assms obtain s' c ms where ms: "matches r s [] = (s', c) # ms"
    and m: "m = \<lparr>start = 0, matched = take (length s - length s') s, groups = c, rest = s'\<rparr>"
    by (auto simp: match_here_def split: list.splits)
  from ms have "(s', c) \<in> set (matches r s [])"
    by simp
  then have "suffix s' s \<and> length s' + min_len r \<le> length s"
    by (rule matches_suffix)
  with m show "start m = 0" and "matched m @ rest m = s"
    and "length (rest m) + min_len r \<le> length s"
    by (simp_all add: suffix_take_append)
qed

lemma exec_Some:
  "exec r s = Some m \<Longrightarrow>
     start m \<le> length s \<and> drop (start m) s = matched m @ rest m \<and>
     length (rest m) + min_len r \<le> length s"
proof (induction s arbitrary: m)
  case Nil
  then show ?case
    using match_here_Some [of r "[]" m] by simp
next
  case (Cons x xs)
  show ?case
  proof (cases "match_here r (x # xs)")
    case (Some m')
    with Cons.prems have "match_here r (x # xs) = Some m"
      by simp
    then show ?thesis
      using match_here_Some [of r "x # xs" m] by simp
  next
    case None
    with Cons.prems obtain m' where m': "exec r xs = Some m'"
      and m: "m = m'\<lparr>start := Suc (start m')\<rparr>"
      by auto
    from Cons.IH [OF m'] m show ?thesis
      by simp
  qed
qed

lemma exec_rest_le: "exec r s = Some m \<Longrightarrow> length (rest m) \<le> length s"
  by (drule exec_Some) simp

lemma exec_rest_less: "exec r s = Some m \<Longrightarrow> matched m \<noteq> [] \<Longrightarrow> length (rest m) < length s"
proof -
  assume "exec r s = Some m" and ne: "matched m \<noteq> []"
  then have "drop (start m) s = matched m @ rest m"
    by (auto dest: exec_Some)
  then have "length (drop (start m) s) = length (matched m) + length (rest m)"
    by simp
  with ne show ?thesis
    by (cases "matched m") auto
qed

text \<open>
  \<^verbatim>\<open>text.match(pattern)\<close> with the \<^verbatim>\<open>g\<close> flag: every match, leftmost first, each
  search starting where the last match ended (one character further after an empty
  match). \<open>off\<close> is the position of \<open>s\<close> in the whole text, so that \<open>start\<close> counts
  from the start of the whole text.
\<close>

function match_from :: "regex \<Rightarrow> nat \<Rightarrow> jstring \<Rightarrow> rmatch list" where
  "match_from r off s =
     (case exec r s of
        None \<Rightarrow> []
      | Some m \<Rightarrow>
          m\<lparr>start := off + start m\<rparr> #
          (if matched m = [] then
             (case rest m of
                [] \<Rightarrow> []
              | x # xs \<Rightarrow> match_from r (off + start m + 1) xs)
           else match_from r (off + start m + length (matched m)) (rest m)))"
  by pat_completeness auto
termination
proof (relation "measure (\<lambda>(r, off, s). length s)")
  show "wf (measure (\<lambda>(r, off, s). length s))"
    by simp
next
  fix r :: regex and off :: nat and s :: jstring and m x xs
  assume "exec r s = Some m" and "rest m = x # xs"
  then show "((r, off + start m + 1, xs), (r, off, s)) \<in> measure (\<lambda>(r, off, s). length s)"
    using exec_rest_le [of r s m] by simp
next
  fix r :: regex and off :: nat and s :: jstring and m
  assume "exec r s = Some m" and "matched m \<noteq> []"
  then show "((r, off + start m + length (matched m), rest m), (r, off, s))
      \<in> measure (\<lambda>(r, off, s). length s)"
    using exec_rest_less [of r s m] by simp
qed

declare match_from.simps [simp del]

definition match_all :: "regex \<Rightarrow> jstring \<Rightarrow> rmatch list" where
  "match_all r s = match_from r 0 s"


section \<open>The code fragment extractor\<close>

text \<open>A sequence and an alternation of several expressions, as the source writes them.\<close>

fun seqs :: "regex \<Rightarrow> regex list \<Rightarrow> regex" where
  "seqs r [] = r"
| "seqs r (x # xs) = Seq r (seqs x xs)"

fun alts :: "regex \<Rightarrow> regex list \<Rightarrow> regex" where
  "alts r [] = r"
| "alts r (x # xs) = Alt r (alts x xs)"

abbreviation fence :: jstring where
  "fence \<equiv> [backtick, backtick, backtick]"

text \<open>\<^verbatim>\<open>/```(?:\w+\n)?([\s\S]*?)```|`([^`]+)`/g\<close>\<close>

definition codeBlockRegex :: regex where
  "codeBlockRegex =
     Alt (seqs (Lit fence)
            [Opt (Seq (Plus WordChar) (Lit [newline])), Group 1 (LazyStar AnyChar), Lit fence])
         (seqs (Lit [backtick]) [Group 2 (Plus NotBacktick), Lit [backtick]])"

text \<open>\<^verbatim>\<open>/(?:const|let|var|function|class|import|export)[\s\S]*?(?:;|\})/g\<close>\<close>

definition keywordPattern :: regex where
  "keywordPattern =
     seqs (alts (Lit (js ''const''))
             [Lit (js ''let''), Lit (js ''var''), Lit (js ''function''), Lit (js ''class''), Lit (js ''import''),
              Lit (js ''export'')])
       [LazyStar AnyChar, Alt (Lit (js '';'')) (Lit (js ''}''))]"

text \<open>\<^verbatim>\<open>/(?:useEffect|useState|useCallback|useMemo)\([\s\S]*?\)(?:;|\})/g\<close>\<close>

definition hookPattern :: regex where
  "hookPattern =
     seqs (alts (Lit (js ''useEffect'')) [Lit (js ''useState''), Lit (js ''useCallback''), Lit (js ''useMemo'')])
       [Lit (js ''(''), LazyStar AnyChar, Lit (js '')''), Alt (Lit (js '';'')) (Lit (js ''}''))]"

text \<open>\<^verbatim>\<open>/<[\w\s="']+>[\s\S]*?<\/[\w]+>/g\<close>\<close>

definition markupPattern :: regex where
  "markupPattern =
     seqs (Lit (js ''<''))
       [Plus TagChar, Lit (js ''>''), LazyStar AnyChar, Lit (js ''</''), Plus WordChar, Lit (js ''>'')]"

definition codeLikePatterns :: "regex list" where
  "codeLikePatterns = [keywordPattern, hookPattern, markupPattern]"

text \<open>JavaScript truthiness of an optional string, and \<^verbatim>\<open>a || b\<close> on two of them.\<close>

fun truthy :: "jstring option \<Rightarrow> bool" where
  "truthy None = False"
| "truthy (Some s) = (s \<noteq> [])"

definition js_or :: "jstring option \<Rightarrow> jstring option \<Rightarrow> jstring option" where
  "js_or a b = (if truthy a then a else b)"

lemma exec_codeBlockRegex_less:
  "exec codeBlockRegex s = Some m \<Longrightarrow> length (rest m) < length s"
  by (drule exec_Some) (simp add: codeBlockRegex_def)

text \<open>
  The \<^verbatim>\<open>while ((match = codeBlockRegex.exec(content)) !== null)\<close> loop, on the text
  from \<^verbatim>\<open>lastIndex\<close> on: the blocks it pushes. Every match of \<open>codeBlockRegex\<close> has
  at least three characters, so each round starts further into the text.
\<close>

function scanCodeBlocks :: "jstring \<Rightarrow> jstring list" where
  "scanCodeBlocks s =
     (case exec codeBlockRegex s of
        None \<Rightarrow> []
      | Some m \<Rightarrow>
          (let block = js_or (group m 1) (group m 2) in
           (case block of
              None \<Rightarrow> []
            | Some b \<Rightarrow> if truthy block \<and> trim b \<noteq> [] then [trim b] else []))
          @ scanCodeBlocks (rest m))"
  by pat_completeness auto
termination
  by (relation "measure length") (auto dest: exec_codeBlockRegex_less)

declare scanCodeBlocks.simps [simp del]

text \<open>The \<^verbatim>\<open>for (const pattern of codeLikePatterns)\<close> loop: \<^verbatim>\<open>content.match(pattern)\<close>
  is null or the matched texts, which are pushed in order.\<close>

definition codeLikeMatches :: "jstring \<Rightarrow> jstring list" where
  "codeLikeMatches content =
     concat (map (\<lambda>pattern. map matched (match_all pattern content)) codeLikePatterns)"

definition extractCodeBlocks :: "jstring \<Rightarrow> jstring list" where
  "extractCodeBlocks content =
     (let blocks = scanCodeBlocks content in
      if length blocks = 0 then blocks @ codeLikeMatches content else blocks)"

section \<open>The result formatter\<close>

text \<open>
  What the provider returns, as \<^verbatim>\<open>processSearchResults\<close> reads it: \<^verbatim>\<open>url\<close> and
  \<^verbatim>\<open>title\<close> are strings; \<^verbatim>\<open>content\<close>, \<^verbatim>\<open>rawContent\<close> and \<^verbatim>\<open>answer\<close> may be
  missing (\<open>None\<close>), and the code tests them for truthiness; \<^verbatim>\<open>results\<close> is an array.
  The whole result set may be missing.
\<close>

record search_result =
  url :: jstring
  title :: jstring
  content :: "jstring option"
  rawContent :: "jstring option"

record result_set =
  answer :: "jstring option"
  results :: "search_result list"

text \<open>\<^verbatim>\<open>TextContent\<close>: \<^verbatim>\<open>{ type: "text", text: ... }\<close>.\<close>

record text_content =
  content_type :: jstring
  content_text :: jstring

definition text_item :: "jstring \<Rightarrow> text_content" where
  "text_item s = \<lparr>content_type = js ''text'', content_text = s\<rparr>"

definition no_results_text :: jstring where
  "no_results_text = js ''No results were found for your query. Please try a different search term.''"

definition nothing_relevant_text :: jstring where
  "nothing_relevant_text =
     js ''The search was completed but no relevant information was found. Please try refining your query.''"

text \<open>The lines pushed for \<^verbatim>\<open>results.answer\<close> under a category's sub-header.\<close>

definition answer_lines :: "jstring \<Rightarrow> result_set \<Rightarrow> jstring list" where
  "answer_lines label rs =
     (case answer rs of
        None \<Rightarrow> []
      | Some a \<Rightarrow> if truthy (Some a) then [label, a @ [newline]] else [])"

text \<open>The lines pushed for \<^verbatim>\<open>result.content\<close> under a category's sub-header (the
  sub-header starts with a line feed) and the empty line closing a result's block.\<close>

definition content_lines :: "jstring \<Rightarrow> search_result \<Rightarrow> jstring list" where
  "content_lines label result =
     (case content result of
        None \<Rightarrow> []
      | Some c \<Rightarrow> if truthy (Some c) then [newline # label, c] else [])
     @ [[]]"

text \<open>The bodies of the four \<^verbatim>\<open>results.results.forEach\<close> callbacks: the lines one
  result contributes.\<close>

definition code_result :: "nat \<Rightarrow> search_result \<Rightarrow> jstring list" where
  "code_result index result =
     [js ''Example '' @ string_of_nat (index + 1) @ js '':'', js ''Source: '' @ url result]
     @ (case rawContent result of
          None \<Rightarrow> []
        | Some raw \<Rightarrow>
            if truthy (Some raw) then
              (let codeBlocks = extractCodeBlocks raw in
               if length codeBlocks > 0
               then concat (map (\<lambda>block. [newline # js ''Code:'', trim block]) codeBlocks)
               else [])
            else [])
     @ content_lines (js ''Description:'') result"

definition docs_result :: "search_result \<Rightarrow> jstring list" where
  "docs_result result =
     [title result, js ''Source: '' @ url result] @ content_lines (js ''Details:'') result"

definition debug_result :: "nat \<Rightarrow> search_result \<Rightarrow> jstring list" where
  "debug_result index result =
     [js ''Solution '' @ string_of_nat (index + 1) @ js '':'', js ''Context: '' @ title result,
      js ''Source: '' @ url result]
     @ content_lines (js ''Fix:'') result"

definition learn_result :: "search_result \<Rightarrow> jstring list" where
  "learn_result result =
     [title result, js ''Source: '' @ url result] @ content_lines (js ''Key Points:'') result"

text \<open>The \<^verbatim>\<open>switch (type)\<close> of the formatter: the lines in \<^verbatim>\<open>responseText\<close> after it.
  A type that is none of the four cases pushes nothing.\<close>

definition response_lines :: "result_set \<Rightarrow> jstring \<Rightarrow> jstring list" where
  "response_lines rs ty =
     (if ty = js ''code'' then
        [js ''Code Examples & Implementation:\<newline>''] @ answer_lines (js ''Overview:'') rs
        @ concat (map (\<lambda>(index, result). code_result index result) (enumerate 0 (results rs)))
      else if ty = js ''docs'' then
        [js ''Technical Documentation:\<newline>''] @ answer_lines (js ''Quick Reference:'') rs
        @ concat (map docs_result (results rs))
      else if ty = js ''debug'' then
        [js ''Debugging Solutions:\<newline>''] @ answer_lines (js ''Quick Solution:'') rs
        @ concat (map (\<lambda>(index, result). debug_result index result) (enumerate 0 (results rs)))
      else if ty = js ''learn'' then
        [js ''Learning Resources:\<newline>''] @ answer_lines (js ''Overview:'') rs
        @ concat (map learn_result (results rs))
      else [])"

definition processSearchResults :: "result_set option \<Rightarrow> jstring \<Rightarrow> text_content" where
  "processSearchResults results_opt ty =
     (case results_opt of
        None \<Rightarrow> text_item no_results_text
      | Some rs \<Rightarrow>
          (let responseText = response_lines rs ty in
           if length responseText = 0 then text_item nothing_relevant_text
           else text_item (join [newline] responseText)))"

section \<open>The search orchestrator\<close>

text \<open>The options of a provider call: \<^verbatim>\<open>baseOptions\<close>, and with \<^verbatim>\<open>maxResults\<close>.\<close>

record base_options =
  searchDepth :: jstring
  includeAnswer :: bool
  includeRawContent :: bool

record search_options = base_options +
  maxResults :: nat

text \<open>A failure of the provider call, as the \<^verbatim>\<open>catch\<close> block reads it:
  \<^verbatim>\<open>error.message\<close>, which may be missing, and \<^verbatim>\<open>String(error)\<close>.\<close>

record provider_error =
  message :: "jstring option"
  as_string :: jstring

text \<open>The provider \<^verbatim>\<open>tvly.search\<close> is outside the program: a parameter that, for a
  query and options, fails or returns a result set, possibly none.\<close>

type_synonym provider = "jstring \<Rightarrow> search_options \<Rightarrow> provider_error + result_set option"

text \<open>The arguments of a tool call and the request.\<close>

record tool_args =
  query :: "jstring option"
  type :: "jstring option"

record request =
  name :: jstring
  arguments :: "tool_args option"

text \<open>What a call leaves behind: the \<^verbatim>\<open>content\<close> list of the response and the
  provider calls made, in order.\<close>

type_synonym outcome = "text_content list \<times> (jstring \<times> search_options) list"

definition unknown_tool_text :: "jstring \<Rightarrow> jstring" where
  "unknown_tool_text n =
     js ''Error: Unknown tool '' @ [0x27] @ n @ [0x27] @ js ''. Only 'search' is supported.''"

definition invalid_arguments_text :: jstring where
  "invalid_arguments_text = js ''Error: Invalid arguments. A 'query' parameter is required.''"

definition authentication_error_text :: jstring where
  "authentication_error_text =
     js ''Authentication error occurred. Please check the API key configuration.''"

definition rate_limit_text :: jstring where
  "rate_limit_text = js ''Rate limit exceeded. Please wait a moment before trying again.''"

definition unexpected_error_text :: "jstring \<Rightarrow> jstring" where
  "unexpected_error_text errorMessage =
     js ''An unexpected error occurred during the search. Please try again later. Error: ''
     @ errorMessage"

text \<open>
  The \<^verbatim>\<open>catch\<close> block. \<^verbatim>\<open>String.prototype.toLowerCase\<close> follows the case mappings
  of the Unicode standard, a table outside the program: it is the parameter
  \<open>toLowerCase\<close> of the handler.
\<close>

definition error_message :: "provider_error \<Rightarrow> jstring" where
  "error_message err =
     (case js_or (message err) (Some (as_string err)) of
        None \<Rightarrow> as_string err
      | Some m \<Rightarrow> m)"

definition catch_block :: "(jstring \<Rightarrow> jstring) \<Rightarrow> provider_error \<Rightarrow> text_content list" where
  "catch_block toLowerCase err =
     (let errorMessage = error_message err in
      if str_includes (toLowerCase errorMessage) (js ''api_key'')
      then [text_item authentication_error_text]
      else if str_includes (toLowerCase errorMessage) (js ''rate limit'')
      then [text_item rate_limit_text]
      else [text_item (unexpected_error_text errorMessage)])"

text \<open>One arm of the \<^verbatim>\<open>switch (type)\<close> in the \<^verbatim>\<open>try\<close> block: the provider call,
  then the formatting of what it returned, or the \<^verbatim>\<open>catch\<close> block when it failed.\<close>

definition search_and_process ::
  "(jstring \<Rightarrow> jstring) \<Rightarrow> provider \<Rightarrow> jstring \<Rightarrow> search_options \<Rightarrow> jstring \<Rightarrow> outcome" where
  "search_and_process toLowerCase tvly q opts ty =
     (case tvly q opts of
        Inl err \<Rightarrow> (catch_block toLowerCase err, [(q, opts)])
      | Inr results_opt \<Rightarrow> ([processSearchResults results_opt ty], [(q, opts)]))"

definition baseOptions :: base_options where
  "baseOptions = \<lparr>searchDepth = js ''advanced'', includeAnswer = True, includeRawContent = True\<rparr>"

text \<open>The handler of \<^verbatim>\<open>CallToolRequestSchema\<close>. When no case of the switch matches,
  \<^verbatim>\<open>results\<close> stays undefined, no call is made and the formatter gets no result set.\<close>

definition call_tool :: "(jstring \<Rightarrow> jstring) \<Rightarrow> provider \<Rightarrow> request \<Rightarrow> outcome" where
  "call_tool toLowerCase tvly req =
     (if name req \<noteq> (js ''search'') then ([text_item (unknown_tool_text (name req))], [])
      else
        (case arguments req of
           None \<Rightarrow> ([text_item invalid_arguments_text], [])
         | Some args \<Rightarrow>
             (case query args of
                None \<Rightarrow> ([text_item invalid_arguments_text], [])
              | Some q \<Rightarrow>
                  (let ty = (case js_or (type args) (Some (js ''code'')) of
                               None \<Rightarrow> (js ''code'') | Some v \<Rightarrow> v) in
                   if ty = js ''code'' then
                     search_and_process toLowerCase tvly q
                       (base_options.extend baseOptions (search_options.fields 3)) ty
                   else if ty = js ''docs'' then
                     search_and_process toLowerCase tvly q
                       ((base_options.extend baseOptions (search_options.fields 2))
                          \<lparr>searchDepth := js ''basic''\<rparr>) ty
                   else if ty = js ''debug'' then
                     search_and_process toLowerCase tvly q
                       (base_options.extend baseOptions (search_options.fields 5)) ty
                   else if ty = js ''learn'' then
                     search_and_process toLowerCase tvly q
                       ((base_options.extend baseOptions (search_options.fields 3))
                          \<lparr>searchDepth := js ''basic''\<rparr>) ty
                   else ([processSearchResults None ty], [])))))"

section \<open>Properties\<close>

text \<open>
  The keywords and the statement terminators of the first heuristic pattern, the texts
  left after each terminator of a text, in order, and the positions that start a line.
\<close>

definition keyword_list :: "jstring list" where
  "keyword_list = [js ''const'', js ''let'', js ''var'', js ''function'', js ''class'', js ''import'', js ''export'']"

definition is_terminator :: "jchar \<Rightarrow> bool" where
  "is_terminator c = (c = 0x3B \<or> c = 0x7D)"

fun after_terminators :: "jstring \<Rightarrow> jstring list" where
  "after_terminators [] = []"
| "after_terminators (x # xs) = (if is_terminator x then [xs] else []) @ after_terminators xs"

definition at_line_start :: "jstring \<Rightarrow> nat \<Rightarrow> bool" where
  "at_line_start s i =
     (i = 0 \<or> s ! (i - 1) = 0x0A \<or> s ! (i - 1) = 0x0D \<or> s ! (i - 1) = 0x2028 \<or>
      s ! (i - 1) = 0x2029)"

text \<open>What \<^verbatim>\<open>toLowerCase\<close> does to a text of ASCII characters: \<open>A\<close> to \<open>Z\<close> become
  \<open>a\<close> to \<open>z\<close>. It stands for \<open>toLowerCase\<close> in the examples, whose texts are ASCII.\<close>

definition ascii_lower :: "jstring \<Rightarrow> jstring" where
  "ascii_lower s = map (\<lambda>c. if 0x41 \<le> c \<and> c \<le> 0x5A then c + 0x20 else c) s"



text \<open>\<open>str_includes\<close> is containment as a contiguous run.\<close>

lemma str_includes_iff: "str_includes s pat \<longleftrightarrow> (\<exists>pre post. s = pre @ pat @ post)"
proof (induction s)
  case Nil
  show ?case by auto
next
  case (Cons x xs)
  have "(\<exists>pre post. x # xs = pre @ pat @ post) \<longleftrightarrow>
        prefix pat (x # xs) \<or> (\<exists>pre post. xs = pre @ pat @ post)"
  proof
    assume "\<exists>pre post. x # xs = pre @ pat @ post"
    then obtain pre post where e: "x # xs = pre @ pat @ post"
      by blast
    show "prefix pat (x # xs) \<or> (\<exists>pre post. xs = pre @ pat @ post)"
    proof (cases pre)
      case Nil
      with e show ?thesis by (auto simp: prefix_def)
    next
      case (Cons y ys)
      with e show ?thesis by auto
    qed
  next
    assume "prefix pat (x # xs) \<or> (\<exists>pre post. xs = pre @ pat @ post)"
    then show "\<exists>pre post. x # xs = pre @ pat @ post"
    proof
      assume "prefix pat (x # xs)"
      then obtain post where "x # xs = [] @ pat @ post"
        by (auto simp: prefix_def)
      then show ?thesis by blast
    next
      assume "\<exists>pre post. xs = pre @ pat @ post"
      then obtain pre post where "x # xs = (x # pre) @ pat @ post"
        by auto
      then show ?thesis by blast
    qed
  qed
  with Cons show ?case by simp
qed

text \<open>A text without a backtick has no fenced or inline fragment.\<close>

lemma matches_no_backtick:
  "s = [] \<or> hd s \<noteq> backtick \<Longrightarrow> matches codeBlockRegex s c = []"
  by (cases s) (auto simp: codeBlockRegex_def)

lemma match_here_no_backtick:
  "s = [] \<or> hd s \<noteq> backtick \<Longrightarrow> match_here codeBlockRegex s = None"
  by (simp add: match_here_def matches_no_backtick)

lemma exec_no_backtick: "backtick \<notin> set s \<Longrightarrow> exec codeBlockRegex s = None"
proof (induction s)
  case Nil
  show ?case by (simp add: match_here_no_backtick)
next
  case (Cons x xs)
  then have "match_here codeBlockRegex (x # xs) = None"
    by (intro match_here_no_backtick) auto
  with Cons show ?case by simp
qed

lemma scanCodeBlocks_no_backtick: "backtick \<notin> set s \<Longrightarrow> scanCodeBlocks s = []"
  by (simp add: scanCodeBlocks.simps exec_no_backtick)

text \<open>
  The keyword pattern at a position: for the keyword found there, the ways of matching are
  the terminators after it, the nearest first.
\<close>

lemma lazy_any_terminator:
  "matches (Seq (LazyStar AnyChar) (Alt (Lit (js '';'')) (Lit (js ''}'')))) s c
     = map (\<lambda>r. (r, c)) (after_terminators s)"
  by (induction s) (auto simp: is_terminator_def js_def unit_of_def)

lemma after_terminators_Cons:
  "after_terminators s = r # rs \<Longrightarrow>
     \<exists>body t. s = body @ t # r \<and> is_terminator t \<and> (\<forall>c\<in>set body. \<not> is_terminator c)"
proof (induction s)
  case Nil
  then show ?case by simp
next
  case (Cons x xs)
  show ?case
  proof (cases "is_terminator x")
    case True
    with Cons.prems have "x # xs = [] @ x # r"
      by simp
    with True show ?thesis
      by (metis empty_iff list.set(1))
  next
    case False
    with Cons.prems have "after_terminators xs = r # rs"
      by simp
    from Cons.IH [OF this] obtain body t where
      "xs = body @ t # r" "is_terminator t" "\<forall>c\<in>set body. \<not> is_terminator c"
      by blast
    with False have "x # xs = (x # body) @ t # r \<and> is_terminator t \<and>
        (\<forall>c\<in>set (x # body). \<not> is_terminator c)"
      by simp
    then show ?thesis by blast
  qed
qed

lemma matches_Seq_Lit:
  "matches (Seq (Lit l) b) s c = (if prefix l s then matches b (drop (length l) s) c else [])"
  by simp

lemma matches_Seq_Alt:
  "matches (Seq (Alt a a') b) s c = matches (Seq a b) s c @ matches (Seq a' b) s c"
  by simp

lemma matches_keywordPattern:
  "matches keywordPattern s c =
     concat (map (\<lambda>k. if prefix k s then map (\<lambda>r. (r, c)) (after_terminators (drop (length k) s))
                       else []) keyword_list)"
  unfolding keywordPattern_def keyword_list_def
  by (simp add: matches_Seq_Lit matches_Seq_Alt lazy_any_terminator del: matches.simps(4))

lemma concat_map_Cons:
  "concat (map f xs) = y # ys \<Longrightarrow> \<exists>x\<in>set xs. \<exists>zs. f x = y # zs"
proof (induction xs)
  case Nil
  then show ?case by simp
next
  case (Cons x xs)
  then show ?case
    by (cases "f x") auto
qed

lemma match_here_keywordPattern:
  assumes "match_here keywordPattern s = Some m"
  shows "\<exists>k body t. k \<in> set keyword_list \<and> is_terminator t \<and>
           (\<forall>c\<in>set body. \<not> is_terminator c) \<and> matched m = k @ body @ [t] \<and>
           s = matched m @ rest m"
proof -
  from assms obtain ms where ms: "matches keywordPattern s [] = (rest m, groups m) # ms"
    by (auto simp: match_here_def split: list.splits)
  from concat_map_Cons [OF ms [unfolded matches_keywordPattern]]
  obtain k zs where k: "k \<in> set keyword_list" and
    *: "(if prefix k s then map (\<lambda>r. (r, [])) (after_terminators (drop (length k) s)) else [])
          = (rest m, groups m) # zs"
    by blast
  from * have pre: "prefix k s"
    by (auto split: if_splits)
  with * obtain rs where "after_terminators (drop (length k) s) = rest m # rs"
    by (auto simp: map_eq_Cons_conv)
  from after_terminators_Cons [OF this] obtain body t where
    d: "drop (length k) s = body @ t # rest m" and t: "is_terminator t"
    and b: "\<forall>c\<in>set body. \<not> is_terminator c"
    by blast
  from pre d have s: "s = k @ body @ [t] @ rest m"
    by (metis append_Cons append_Nil append_take_drop_id prefix_def append_eq_conv_conj)
  from match_here_Some(2) [OF assms] s have "matched m = k @ body @ [t]"
    by (metis append.assoc append_same_eq)
  with k t b s show ?thesis
    by auto
qed

text \<open>Every match of a global search is the match at its own position, and a position with
  a match lies inside some match of the search or starts one.\<close>

lemma exec_match_here:
  "exec r s = Some m \<Longrightarrow>
     start m \<le> length s \<and>
     (\<exists>m'. match_here r (drop (start m) s) = Some m' \<and> matched m' = matched m \<and> rest m' = rest m)"
proof (induction s arbitrary: m)
  case Nil
  then show ?case
    using match_here_Some(1) [of r "[]" m] by simp
next
  case (Cons x xs)
  show ?case
  proof (cases "match_here r (x # xs)")
    case (Some m0)
    with Cons.prems have "m = m0"
      by simp
    with Some show ?thesis
      using match_here_Some(1) [of r "x # xs" m] by simp
  next
    case None
    with Cons.prems obtain m0 where m0: "exec r xs = Some m0"
      and m: "m = m0\<lparr>start := Suc (start m0)\<rparr>"
      by auto
    from Cons.IH [OF m0] m show ?thesis
      by simp
  qed
qed

lemma match_from_sound:
  "m \<in> set (match_from r off s) \<Longrightarrow>
     \<exists>i m'. start m = off + i \<and> i \<le> length s \<and> match_here r (drop i s) = Some m' \<and>
       matched m' = matched m \<and> rest m' = rest m"
proof (induction r off s rule: match_from.induct)
  case (1 r off s)
  show ?case
  proof (cases "exec r s")
    case None
    with "1.prems" show ?thesis
      by (simp add: match_from.simps)
  next
    case (Some m0)
    note e = exec_match_here [OF Some]
    from exec_Some [OF Some] have d: "drop (start m0) s = matched m0 @ rest m0"
      by simp
    then have "length (drop (start m0) s) = length (matched m0 @ rest m0)"
      by simp
    then have len: "length s - start m0 = length (matched m0) + length (rest m0)"
      by simp
    show ?thesis
    proof (cases "m = m0\<lparr>start := off + start m0\<rparr>")
      case True
      with e show ?thesis
        by auto
    next
      case False
      show ?thesis
      proof (cases "matched m0 = []")
        case True
        with False Some "1.prems"
        have "m \<in> set (case rest m0 of [] \<Rightarrow> []
                        | x # xs \<Rightarrow> match_from r (off + start m0 + 1) xs)"
          by (simp add: match_from.simps [of r off s])
        then obtain x xs where r: "rest m0 = x # xs"
          and m: "m \<in> set (match_from r (off + start m0 + 1) xs)"
          by (cases "rest m0") auto
        from "1.IH"(1) [OF Some True r m] obtain i m' where
          i: "start m = off + start m0 + 1 + i" "i \<le> length xs"
            "match_here r (drop i xs) = Some m'" "matched m' = matched m" "rest m' = rest m"
          by blast
        from d True r have xs: "xs = drop (start m0 + 1) s"
          by (metis Suc_eq_plus1 append_Nil drop_Suc list.sel(3) tl_drop)
        then have "drop i xs = drop (start m0 + 1 + i) s"
          by (simp add: add.commute)
        moreover from len r i(2) have "start m0 + 1 + i \<le> length s"
          by simp
        ultimately show ?thesis
          using i by (intro exI [of _ "start m0 + 1 + i"] exI [of _ m']) simp
      next
        case ne: False
        with False Some "1.prems"
        have m: "m \<in> set (match_from r (off + start m0 + length (matched m0)) (rest m0))"
          by (auto simp: match_from.simps [of r off s])
        from "1.IH"(2) [OF Some ne m] obtain i m' where
          i: "start m = off + start m0 + length (matched m0) + i" "i \<le> length (rest m0)"
            "match_here r (drop i (rest m0)) = Some m'" "matched m' = matched m"
            "rest m' = rest m"
          by blast
        from d have rs: "rest m0 = drop (start m0 + length (matched m0)) s"
          by (metis append_eq_conv_conj drop_drop add.commute)
        then have "drop i (rest m0) = drop (start m0 + length (matched m0) + i) s"
          by (simp add: add.commute)
        moreover from len ne i(2) have "start m0 + length (matched m0) + i \<le> length s"
          by (cases "matched m0") auto
        ultimately show ?thesis
          using i by (intro exI [of _ "start m0 + length (matched m0) + i"] exI [of _ m']) simp
      qed
    qed
  qed
qed


lemma keyword_fragment_shape:
  assumes "m \<in> set (match_all keywordPattern txt)"
  shows "\<exists>k body t. k \<in> set keyword_list \<and> is_terminator t \<and>
           (\<forall>c\<in>set body. \<not> is_terminator c) \<and> matched m = k @ body @ [t] \<and>
           start m \<le> length txt \<and> drop (start m) txt = matched m @ rest m"
proof -
  from match_from_sound [OF assms [unfolded match_all_def]] obtain m' where
    m': "start m \<le> length txt" "match_here keywordPattern (drop (start m) txt) = Some m'"
      "matched m' = matched m" "rest m' = rest m"
    by auto
  from match_here_keywordPattern [OF m'(2)] m' show ?thesis
    by auto
qed

lemma exec_complete:
  "p \<le> length s \<Longrightarrow> match_here r (drop p s) = Some m' \<Longrightarrow>
     \<exists>m. exec r s = Some m \<and> start m \<le> p"
proof (induction s arbitrary: p)
  case Nil
  then show ?case
    using match_here_Some(1) [of r "[]" m'] by simp
next
  case (Cons x xs)
  show ?case
  proof (cases "match_here r (x # xs)")
    case (Some m0)
    then show ?thesis
      using match_here_Some(1) [OF Some] by simp
  next
    case None
    with Cons.prems obtain p' where p: "p = Suc p'"
      by (cases p) auto
    with Cons.prems have "p' \<le> length xs" "match_here r (drop p' xs) = Some m'"
      by simp_all
    from Cons.IH [OF this] obtain m where "exec r xs = Some m" "start m \<le> p'"
      by blast
    with None p show ?thesis
      by simp
  qed
qed

lemma exec_matched_min_len:
  assumes "exec r s = Some m"
  shows "min_len r \<le> length (matched m)"
proof -
  from exec_match_here [OF assms] obtain m' where
    m': "match_here r (drop (start m) s) = Some m'" "matched m' = matched m" "rest m' = rest m"
    by blast
  from match_here_Some(2,3) [OF m'(1)]
  have "length (matched m' @ rest m') = length (drop (start m) s)"
    and "length (rest m') + min_len r \<le> length (drop (start m) s)"
    by simp_all
  with m' show ?thesis
    by simp
qed

lemma match_from_covers:
  "0 < min_len r \<Longrightarrow> p \<le> length s \<Longrightarrow> match_here r (drop p s) = Some m' \<Longrightarrow>
     \<exists>m\<in>set (match_from r off s). start m \<le> off + p \<and> off + p < start m + length (matched m)"
proof (induction r off s arbitrary: p rule: match_from.induct)
  case (1 r off s)
  from exec_complete [OF "1.prems"(2,3)] obtain m0 where
    m0: "exec r s = Some m0" and le: "start m0 \<le> p"
    by blast
  from exec_matched_min_len [OF m0] "1.prems"(1) have ne: "matched m0 \<noteq> []"
    by auto
  from exec_Some [OF m0] have d: "drop (start m0) s = matched m0 @ rest m0"
    by simp
  then have "length (drop (start m0) s) = length (matched m0 @ rest m0)"
    by simp
  then have len: "length s - start m0 = length (matched m0) + length (rest m0)"
    by simp
  from m0 ne have unfold: "match_from r off s =
      m0\<lparr>start := off + start m0\<rparr>
      # match_from r (off + start m0 + length (matched m0)) (rest m0)"
    by (simp add: match_from.simps [of r off s])
  show ?case
  proof (cases "p < start m0 + length (matched m0)")
    case True
    with le unfold show ?thesis
      by auto
  next
    case False
    define p' where "p' = p - (start m0 + length (matched m0))"
    from d have rs: "rest m0 = drop (start m0 + length (matched m0)) s"
      by (metis append_eq_conv_conj drop_drop add.commute)
    from False have p: "p = start m0 + length (matched m0) + p'"
      by (simp add: p'_def)
    with rs have dp: "drop p' (rest m0) = drop p s"
      by (simp add: add.commute)
    from p len "1.prems"(2) have "p' \<le> length (rest m0)"
      by simp
    from "1.IH"(2) [OF m0 ne "1.prems"(1) this] dp "1.prems"(3)
    obtain m where m: "m \<in> set (match_from r (off + start m0 + length (matched m0)) (rest m0))"
      and "start m \<le> off + start m0 + length (matched m0) + p'"
      and "off + start m0 + length (matched m0) + p' < start m + length (matched m)"
      by auto
    with p have "start m \<le> off + p \<and> off + p < start m + length (matched m)"
      by simp
    moreover from m unfold have "m \<in> set (match_from r off s)"
      by simp
    ultimately show ?thesis
      by blast
  qed
qed

text \<open>A match that reaches into the statement \<^verbatim>\<open>const a = 1;\<close> ends with it.\<close>

lemma first_terminator_unique:
  assumes "body @ t # r = body' @ t' # r'"
    and "is_terminator t" and "is_terminator t'"
    and "\<forall>c\<in>set body. \<not> is_terminator c" and "\<forall>c\<in>set body'. \<not> is_terminator c"
  shows "body = body' \<and> t = t' \<and> r = r'"
  using assms
proof (induction body arbitrary: body')
  case Nil
  then show ?case
    by (cases body') auto
next
  case (Cons x xs)
  then show ?case
    by (cases body') auto
qed


lemma keyword_overlap:
  assumes "k \<in> set keyword_list" and "0 < d" and "d < length k"
    and "drop d k @ u = 0x63 # 0x6F # v"
  shows False
proof -
  from assms(1,3) have "d < 8"
    by (auto simp: keyword_list_def)
  with assms(2) have "d = 1 \<or> d = 2 \<or> d = 3 \<or> d = 4 \<or> d = 5 \<or> d = 6 \<or> d = 7"
    by arith
  with assms(1,3,4) show False
    by (auto simp: keyword_list_def js_def unit_of_def)
qed

lemma keyword_at_statement:
  assumes "k \<in> set keyword_list" and "k @ u = js ''const a = 1;'' @ v"
  shows "k = js ''const'' \<and> u = js '' a = 1;'' @ v"
  using assms by (auto simp: keyword_list_def js_def unit_of_def)

lemma statement_covered:
  assumes eq: "txt = pre @ js ''const a = 1;'' @ post"
  shows "\<exists>m\<in>set (match_all keywordPattern txt). suffix (js ''const a = 1;'') (matched m)"
proof -
  have dp: "drop (length pre) txt = js ''const a = 1;'' @ post"
    using eq by simp
  have "match_here keywordPattern (js ''const a = 1;'' @ post) \<noteq> None"
    by (simp add: match_here_def matches_keywordPattern keyword_list_def is_terminator_def js_def unit_of_def)
  with dp obtain m' where m': "match_here keywordPattern (drop (length pre) txt) = Some m'"
    by auto
  have "0 < min_len keywordPattern"
    by (simp add: keywordPattern_def)
  moreover have "length pre \<le> length txt"
    using eq by simp
  ultimately obtain m where m: "m \<in> set (match_all keywordPattern txt)"
    and lo: "start m \<le> length pre" and hi: "length pre < start m + length (matched m)"
    using match_from_covers [OF _ _ m', of 0] by (auto simp: match_all_def)
  from keyword_fragment_shape [OF m] obtain k body t where
    k: "k \<in> set keyword_list" and t: "is_terminator t"
    and body: "\<forall>c\<in>set body. \<not> is_terminator c"
    and mm: "matched m = k @ body @ [t]"
    and dm: "drop (start m) txt = matched m @ rest m"
    by blast
  define d where "d = length pre - start m"
  from lo have "drop d (drop (start m) txt) = drop (length pre) txt"
    by (simp add: d_def)
  with dp dm mm have e: "drop d (k @ body @ t # rest m) = js ''const a = 1;'' @ post"
    by simp
  from hi lo mm have dlt: "d < length k + length body + 1"
    by (simp add: d_def)
  have stmt: "\<forall>c\<in>set (js ''const a = 1''). \<not> is_terminator c" "is_terminator (0x3B)"
    by (simp_all add: is_terminator_def js_def unit_of_def)
  consider (a) "d = 0" | (b) "0 < d" "d < length k" | (c) "length k \<le> d"
    by linarith
  then have "suffix (js ''const a = 1;'') (matched m)"
  proof cases
    case a
    with e have "k @ body @ t # rest m = js ''const a = 1;'' @ post"
      by simp
    from keyword_at_statement [OF k this]
    have k': "k = js ''const''" and "body @ t # rest m = js '' a = 1'' @ 0x3B # post"
      by (simp_all add: js_def unit_of_def)
    from first_terminator_unique [OF this(2) t] body
    have "body = js '' a = 1'' \<and> t = 0x3B"
      by (simp add: is_terminator_def js_def unit_of_def)
    with k' mm show ?thesis
      by (simp add: js_def unit_of_def)
  next
    case b
    with e have "drop d k @ (body @ t # rest m) = 0x63 # 0x6F # (js ''nst a = 1;'' @ post)"
      by (simp add: js_def unit_of_def)
    from keyword_overlap [OF k b this] show ?thesis ..
  next
    case c
    define d' where "d' = d - length k"
    from c dlt have d': "d' \<le> length body"
      by (simp add: d'_def)
    from c e have "drop d' (body @ t # rest m) = js ''const a = 1;'' @ post"
      by (simp add: d'_def)
    with d' have "drop d' body @ t # rest m = js ''const a = 1'' @ 0x3B # post"
      by (simp add: js_def unit_of_def)
    moreover from body have "\<forall>c\<in>set (drop d' body). \<not> is_terminator c"
      by (meson in_set_dropD)
    ultimately have db: "drop d' body = js ''const a = 1'' \<and> t = 0x3B"
      using first_terminator_unique [of "drop d' body" t "rest m" "js ''const a = 1''" "0x3B" post]
        t stmt by blast
    have "js ''const a = 1;'' = js ''const a = 1'' @ [0x3B]"
      by (simp add: js_def unit_of_def)
    with db have "drop d' body @ [t] = js ''const a = 1;''"
      by simp
    moreover from mm have "matched m = (k @ take d' body) @ (drop d' body @ [t])"
      by simp
    ultimately have "matched m = (k @ take d' body) @ js ''const a = 1;''"
      by simp
    then show ?thesis
      unfolding suffix_def by blast
  qed
  with m show ?thesis
    by blast
qed

text \<open>
  Under each of the four categories the header line is pushed before
  \<^verbatim>\<open>responseText.length\<close> is tested, so the formatter never answers with the ``nothing
  relevant'' text there; and the handler passes a result set to the formatter only under
  one of the four categories, so no call of the tool returns that text.
\<close>

lemma join_Cons_prefix: "prefix l (join sep (l # ls))"
  by (cases ls) simp_all

lemma recognized_category_never_fallback:
  assumes "ty \<in> {js ''code'', js ''docs'', js ''debug'', js ''learn''}"
  shows "processSearchResults (Some rs) ty \<noteq> text_item nothing_relevant_text"
proof
  assume eq: "processSearchResults (Some rs) ty = text_item nothing_relevant_text"
  from assms obtain h ls where l: "response_lines rs ty = h # ls"
    and h: "h \<in> {(js ''Code Examples & Implementation:\<newline>''), js ''Technical Documentation:\<newline>'',
                  js ''Debugging Solutions:\<newline>'', js ''Learning Resources:\<newline>''}"
    by (auto simp: response_lines_def js_def unit_of_def)
  from eq l have "join [newline] (h # ls) = nothing_relevant_text"
    by (simp add: processSearchResults_def text_item_def)
  with join_Cons_prefix [of h "[newline]" ls] have "prefix h nothing_relevant_text"
    by simp
  with h show False
    by (auto simp: nothing_relevant_text_def js_def unit_of_def)
qed


lemma processSearchResults_never_fallback:
  assumes "ty \<in> {js ''code'', js ''docs'', js ''debug'', js ''learn''}"
  shows "processSearchResults results_opt ty \<noteq> text_item nothing_relevant_text"
proof (cases results_opt)
  case None
  then show ?thesis
    by (simp add: processSearchResults_def text_item_def no_results_text_def
        nothing_relevant_text_def js_def unit_of_def)
next
  case (Some rs)
  with recognized_category_never_fallback [OF assms] show ?thesis
    by simp
qed

lemma catch_block_never_fallback: "catch_block toLowerCase err \<noteq> [text_item nothing_relevant_text]"
  by (simp add: catch_block_def Let_def text_item_def nothing_relevant_text_def
      authentication_error_text_def rate_limit_text_def unexpected_error_text_def js_def unit_of_def)

lemma search_and_process_never_fallback:
  assumes "ty \<in> {js ''code'', js ''docs'', js ''debug'', js ''learn''}"
  shows "fst (search_and_process toLowerCase tvly q opts ty) \<noteq> [text_item nothing_relevant_text]"
  using processSearchResults_never_fallback [OF assms] catch_block_never_fallback
  by (simp add: search_and_process_def split: sum.splits)

lemma call_tool_never_fallback:
  "fst (call_tool toLowerCase tvly req) \<noteq> [text_item nothing_relevant_text]"
proof -
  have a: "text_item (unknown_tool_text n) \<noteq> text_item nothing_relevant_text" for n
    by (simp add: text_item_def unknown_tool_text_def nothing_relevant_text_def js_def unit_of_def)
  have b: "text_item invalid_arguments_text \<noteq> text_item nothing_relevant_text"
    by (simp add: text_item_def invalid_arguments_text_def nothing_relevant_text_def js_def unit_of_def)
  have c: "processSearchResults None ty \<noteq> text_item nothing_relevant_text" for ty
    by (simp add: processSearchResults_def text_item_def no_results_text_def
        nothing_relevant_text_def js_def unit_of_def)
  show ?thesis
    using a b c search_and_process_never_fallback
    by (simp add: call_tool_def Let_def split: option.splits)
qed

text \<open>
  C1: for each of the four categories, a search call with a query applies the provider to
  the query and the policy of the table, and to nothing else: code: 3 results, advanced;
  docs: 2 results, basic; debug: 5 results, advanced; learn: 3 results, basic; the answer and
  the raw content are always asked for. The outcome of the call is the formatted reply of
  the provider to exactly this query and policy, or the report of its failure, and the one
  provider call recorded is this one.
\<close>

theorem policy_table:
  "(let policy = \<lparr>searchDepth = js ''advanced'', includeAnswer = True, includeRawContent = True,
                   maxResults = 3\<rparr> in
    call_tool toLowerCase tvly
      \<lparr>name = js ''search'', arguments = Some \<lparr>query = Some q, type = Some (js ''code'')\<rparr>\<rparr>
      = (case tvly q policy of
           Inl err \<Rightarrow> (catch_block toLowerCase err, [(q, policy)])
         | Inr found \<Rightarrow> ([processSearchResults found (js ''code'')], [(q, policy)]))) \<and>
   (let policy = \<lparr>searchDepth = js ''basic'', includeAnswer = True, includeRawContent = True,
                   maxResults = 2\<rparr> in
    call_tool toLowerCase tvly
      \<lparr>name = js ''search'', arguments = Some \<lparr>query = Some q, type = Some (js ''docs'')\<rparr>\<rparr>
      = (case tvly q policy of
           Inl err \<Rightarrow> (catch_block toLowerCase err, [(q, policy)])
         | Inr found \<Rightarrow> ([processSearchResults found (js ''docs'')], [(q, policy)]))) \<and>
   (let policy = \<lparr>searchDepth = js ''advanced'', includeAnswer = True, includeRawContent = True,
                   maxResults = 5\<rparr> in
    call_tool toLowerCase tvly
      \<lparr>name = js ''search'', arguments = Some \<lparr>query = Some q, type = Some (js ''debug'')\<rparr>\<rparr>
      = (case tvly q policy of
           Inl err \<Rightarrow> (catch_block toLowerCase err, [(q, policy)])
         | Inr found \<Rightarrow> ([processSearchResults found (js ''debug'')], [(q, policy)]))) \<and>
   (let policy = \<lparr>searchDepth = js ''basic'', includeAnswer = True, includeRawContent = True,
                   maxResults = 3\<rparr> in
    call_tool toLowerCase tvly
      \<lparr>name = js ''search'', arguments = Some \<lparr>query = Some q, type = Some (js ''learn'')\<rparr>\<rparr>
      = (case tvly q policy of
           Inl err \<Rightarrow> (catch_block toLowerCase err, [(q, policy)])
         | Inr found \<Rightarrow> ([processSearchResults found (js ''learn'')], [(q, policy)])))"
  by (simp add: call_tool_def js_or_def search_and_process_def baseOptions_def
      base_options.extend_def search_options.fields_def Let_def)

text \<open>C1 at a \<open>docs\<close> call, with a provider that returns a result set for the policy of
  \<open>docs\<close> and nothing for any other options.\<close>

theorem policy_table_witness:
  "call_tool ascii_lower
     (\<lambda>q opts. if maxResults opts = 2 \<and> searchDepth opts = js ''basic'' \<and> includeAnswer opts \<and>
                   includeRawContent opts
                then Inr (Some \<lparr>answer = None, results = []\<rparr>) else Inr None)
     \<lparr>name = js ''search'', arguments = Some \<lparr>query = Some (js ''react''), type = Some (js ''docs'')\<rparr>\<rparr>
   = ([text_item (js ''Technical Documentation:\<newline>'')],
      [(js ''react'', \<lparr>searchDepth = js ''basic'', includeAnswer = True, includeRawContent = True,
                       maxResults = 2\<rparr>)])"
proof -
  have "processSearchResults (Some \<lparr>answer = None, results = []\<rparr>) (js ''docs'')
      = text_item (js ''Technical Documentation:\<newline>'')"
    by (simp add: processSearchResults_def response_lines_def answer_lines_def)
  then show ?thesis
    using policy_table [of ascii_lower
        "\<lambda>q opts. if maxResults opts = 2 \<and> searchDepth opts = js ''basic'' \<and> includeAnswer opts \<and>
                   includeRawContent opts
                then Inr (Some \<lparr>answer = None, results = []\<rparr>) else Inr None" "js ''react''"]
    by (simp add: Let_def)
qed

text \<open>
  C2: the extractor returns the fragments of the fenced and inline scan whenever there is
  one, and the matches of the three heuristic patterns only when there is none. On the
  example of the specification it returns the two fragments of the scan, although the
  keyword pattern alone would have matched the first of them again.
\<close>

theorem fenced_scan_precedence:
  "(scanCodeBlocks txt \<noteq> [] \<longrightarrow> extractCodeBlocks txt = scanCodeBlocks txt) \<and>
   (scanCodeBlocks txt = [] \<longrightarrow> extractCodeBlocks txt = codeLikeMatches txt) \<and>
   extractCodeBlocks
     (js ''Here: '' @ fence @ js ''const x = 1;'' @ fence @ js '' and also '' @ [backtick] @ js ''y'' @ [backtick])
     = [js ''const x = 1;'', js ''y''] \<and>
   codeLikeMatches
     (js ''Here: '' @ fence @ js ''const x = 1;'' @ fence @ js '' and also '' @ [backtick] @ js ''y'' @ [backtick])
     = [js ''const x = 1;'']"
proof -
  have "extractCodeBlocks
     (js ''Here: '' @ fence @ js ''const x = 1;'' @ fence @ js '' and also '' @ [backtick] @ js ''y'' @ [backtick])
     = [js ''const x = 1;'', js ''y'']"
    by code_simp
  moreover have "codeLikeMatches
     (js ''Here: '' @ fence @ js ''const x = 1;'' @ fence @ js '' and also '' @ [backtick] @ js ''y'' @ [backtick])
     = [js ''const x = 1;'']"
    by code_simp
  ultimately show ?thesis
    by (simp add: extractCodeBlocks_def)
qed

text \<open>C2 at a text with a fenced block and at a text without backticks.\<close>

theorem fenced_scan_precedence_witness:
  "scanCodeBlocks (fence @ js ''js'' @ [newline] @ js ''run();'' @ [newline] @ fence) = [js ''run();''] \<and>
   extractCodeBlocks (fence @ js ''js'' @ [newline] @ js ''run();'' @ [newline] @ fence) = [js ''run();''] \<and>
   scanCodeBlocks (js ''let n = 0;'') = [] \<and>
   extractCodeBlocks (js ''let n = 0;'') = codeLikeMatches (js ''let n = 0;'')"
proof -
  have a: "scanCodeBlocks (fence @ js ''js'' @ [newline] @ js ''run();'' @ [newline] @ fence) = [js ''run();'']"
    by code_simp
  have b: "scanCodeBlocks (js ''let n = 0;'') = []"
    by code_simp
  show ?thesis
    using fenced_scan_precedence [of "fence @ js ''js'' @ [newline] @ js ''run();'' @ [newline] @ fence"]
      fenced_scan_precedence [of "js ''let n = 0;''"] a b
    by simp
qed

text \<open>
  C3: what the formatter returns for a present result set with no answer and no results. For
  each of the four categories the header line was pushed before the emptiness test, so the
  report is the header followed by a line feed, and not the ``nothing relevant'' text.
\<close>

theorem empty_results_header_only:
  "processSearchResults (Some \<lparr>answer = None, results = []\<rparr>) (js ''code'')
     = text_item (js ''Code Examples & Implementation:\<newline>'') \<and>
   processSearchResults (Some \<lparr>answer = None, results = []\<rparr>) (js ''docs'')
     = text_item (js ''Technical Documentation:\<newline>'') \<and>
   processSearchResults (Some \<lparr>answer = None, results = []\<rparr>) (js ''debug'')
     = text_item (js ''Debugging Solutions:\<newline>'') \<and>
   processSearchResults (Some \<lparr>answer = None, results = []\<rparr>) (js ''learn'')
     = text_item (js ''Learning Resources:\<newline>'') \<and>
   processSearchResults (Some \<lparr>answer = None, results = []\<rparr>) (js ''code'')
     \<noteq> text_item nothing_relevant_text"
  by (simp add: processSearchResults_def response_lines_def answer_lines_def text_item_def
      nothing_relevant_text_def enumerate_eq_zip)

text \<open>
  C4, as stated, fails: with the category \<open>news\<close> and a provider that would return an
  answer, no provider call is made, and the report is not the ``nothing relevant'' text.
\<close>

theorem unrecognized_category_counterexample:
  "snd (call_tool ascii_lower
          (\<lambda>q opts. Inr (Some \<lparr>answer = Some (js ''An answer.''), results = []\<rparr>))
          \<lparr>name = js ''search'',
           arguments = Some \<lparr>query = Some (js ''react hooks''), type = Some (js ''news'')\<rparr>\<rparr>)
     = [] \<and>
   fst (call_tool ascii_lower
          (\<lambda>q opts. Inr (Some \<lparr>answer = Some (js ''An answer.''), results = []\<rparr>))
          \<lparr>name = js ''search'',
           arguments = Some \<lparr>query = Some (js ''react hooks''), type = Some (js ''news'')\<rparr>\<rparr>)
     \<noteq> [text_item nothing_relevant_text]"
  by (simp add: call_tool_def js_or_def processSearchResults_def text_item_def
      nothing_relevant_text_def no_results_text_def)

text \<open>
  C4, amended: for a call with a query and a non-empty category outside the four, no case of
  the switch matches, the provider is not called, the formatter gets no result set, and the
  report is the fixed ``no results found'' text. (An empty category counts as absent and
  stands for \<open>code\<close>.)
\<close>

theorem unrecognized_category_no_call:
  assumes "ty \<noteq> []" and "ty \<notin> {js ''code'', js ''docs'', js ''debug'', js ''learn''}"
  shows "call_tool toLowerCase tvly
           \<lparr>name = js ''search'', arguments = Some \<lparr>query = Some q, type = Some ty\<rparr>\<rparr>
           = ([text_item no_results_text], [])"
  using assms by (simp add: call_tool_def js_or_def processSearchResults_def)

text \<open>The amended C4 at the category \<open>news\<close>.\<close>

theorem unrecognized_category_no_call_witness:
  "js ''news'' \<noteq> [] \<and> js ''news'' \<notin> {js ''code'', js ''docs'', js ''debug'', js ''learn''} \<and>
   call_tool ascii_lower
     (\<lambda>q opts. Inr (Some \<lparr>answer = Some (js ''An answer.''), results = []\<rparr>))
     \<lparr>name = js ''search'',
      arguments = Some \<lparr>query = Some (js ''react hooks''), type = Some (js ''news'')\<rparr>\<rparr>
     = ([text_item no_results_text], [])"
  using unrecognized_category_no_call [where ty = "js ''news''" and toLowerCase = ascii_lower
      and tvly = "\<lambda>q opts. Inr (Some \<lparr>answer = Some (js ''An answer.''), results = []\<rparr>)"
      and q = "js ''react hooks''"]
  by simp



text \<open>
  C6: when the arguments are missing or have no \<open>query\<close> field, the provider is never
  called, and a call of the \<open>search\<close> tool returns the fixed invalid-arguments report.
\<close>

theorem missing_query_invalid_arguments:
  assumes "arguments req = None \<or> (\<exists>args. arguments req = Some args \<and> query args = None)"
  shows "snd (call_tool toLowerCase tvly req) = [] \<and>
         (name req = js ''search'' \<longrightarrow>
            fst (call_tool toLowerCase tvly req) = [text_item invalid_arguments_text])"
  using assms by (auto simp: call_tool_def)

text \<open>C6 at arguments without a query and at missing arguments, with a provider that would
  answer.\<close>

theorem missing_query_invalid_arguments_witness:
  "call_tool ascii_lower
     (\<lambda>q opts. Inr (Some \<lparr>answer = Some (js ''An answer.''), results = []\<rparr>))
     \<lparr>name = js ''search'', arguments = Some \<lparr>query = None, type = Some (js ''code'')\<rparr>\<rparr>
     = ([text_item invalid_arguments_text], []) \<and>
   call_tool ascii_lower
     (\<lambda>q opts. Inr (Some \<lparr>answer = Some (js ''An answer.''), results = []\<rparr>))
     \<lparr>name = js ''search'', arguments = None\<rparr>
     = ([text_item invalid_arguments_text], [])"
  using missing_query_invalid_arguments [where toLowerCase = ascii_lower
      and req = "\<lparr>name = js ''search'',
                  arguments = Some \<lparr>query = None, type = Some (js ''code'')\<rparr>\<rparr>"
      and tvly = "\<lambda>q opts. Inr (Some \<lparr>answer = Some (js ''An answer.''), results = []\<rparr>)"]
    missing_query_invalid_arguments [where toLowerCase = ascii_lower
      and req = "\<lparr>name = js ''search'', arguments = None\<rparr>"
      and tvly = "\<lambda>q opts. Inr (Some \<lparr>answer = Some (js ''An answer.''), results = []\<rparr>)"]
  by (simp add: prod_eq_iff)

text \<open>
  C7: for every category value, formatting an absent result set returns the fixed ``no
  results found'' report, an ordinary text item as every other report.
\<close>

theorem absent_result_set_report:
  "processSearchResults None ty =
     \<lparr>content_type = js ''text'',
      content_text = js ''No results were found for your query. Please try a different search term.''\<rparr>"
  by (simp add: processSearchResults_def text_item_def no_results_text_def)

text \<open>
  C8, as stated, fails: the keyword pattern has no anchor, so a fragment need not begin a
  line. In a text without backticks the fragment \<^verbatim>\<open>const a = 1;\<close> is found at position 4,
  after \<^verbatim>\<open>Use \<close> on the same line.
\<close>

theorem keyword_fragment_midline_counterexample:
  "backtick \<notin> set (js ''Use const a = 1; here'') \<and>
   map (\<lambda>m. (start m, matched m)) (match_all keywordPattern (js ''Use const a = 1; here''))
     = [(4, js ''const a = 1;'')] \<and>
   extractCodeBlocks (js ''Use const a = 1; here'') = [js ''const a = 1;''] \<and>
   \<not> at_line_start (js ''Use const a = 1; here'') 4"
proof -
  have "map (\<lambda>m. (start m, matched m)) (match_all keywordPattern (js ''Use const a = 1; here''))
     = [(4, js ''const a = 1;'')]"
    by code_simp
  moreover have "extractCodeBlocks (js ''Use const a = 1; here'') = [js ''const a = 1;'']"
    by code_simp
  ultimately show ?thesis
    by (simp add: at_line_start_def js_def unit_of_def)
qed

text \<open>
  C8, amended: when the text has no backtick, the extractor returns the matches of the three
  heuristic patterns, and every fragment of the first one is a piece of the text that starts
  with one of the keywords, wherever in the text the keyword stands, and runs to the first
  semicolon or closing brace after the keyword. A text that contains \<^verbatim>\<open>const a = 1;\<close>
  yields a fragment that ends with this statement.
\<close>

theorem keyword_fragments:
  assumes "backtick \<notin> set txt"
  shows "extractCodeBlocks txt
           = map matched (match_all keywordPattern txt) @ map matched (match_all hookPattern txt)
             @ map matched (match_all markupPattern txt) \<and>
         (\<forall>m\<in>set (match_all keywordPattern txt).
            \<exists>k body t. k \<in> set keyword_list \<and> is_terminator t \<and>
              (\<forall>c\<in>set body. \<not> is_terminator c) \<and> matched m = k @ body @ [t] \<and>
              start m \<le> length txt \<and> drop (start m) txt = matched m @ rest m) \<and>
         ((\<exists>pre post. txt = pre @ js ''const a = 1;'' @ post) \<longrightarrow>
            (\<exists>f\<in>set (extractCodeBlocks txt). suffix (js ''const a = 1;'') f))"
proof -
  from assms have e: "extractCodeBlocks txt
           = map matched (match_all keywordPattern txt) @ map matched (match_all hookPattern txt)
             @ map matched (match_all markupPattern txt)"
    by (simp add: extractCodeBlocks_def scanCodeBlocks_no_backtick codeLikeMatches_def
        codeLikePatterns_def)
  have "\<exists>f\<in>set (extractCodeBlocks txt). suffix (js ''const a = 1;'') f"
    if "\<exists>pre post. txt = pre @ js ''const a = 1;'' @ post"
  proof -
    from that obtain pre post where "txt = pre @ js ''const a = 1;'' @ post"
      by blast
    from statement_covered [OF this] obtain m where
      "m \<in> set (match_all keywordPattern txt)" "suffix (js ''const a = 1;'') (matched m)"
      by blast
    with e show ?thesis
      by auto
  qed
  with e keyword_fragment_shape [of _ "txt"] show ?thesis
    by blast
qed

text \<open>The amended C8 at the text \<^verbatim>\<open>const a = 1;\<close>, whose only fragment is the statement.\<close>

theorem keyword_fragments_witness:
  "backtick \<notin> set (js ''const a = 1;'') \<and>
   extractCodeBlocks (js ''const a = 1;'') = [js ''const a = 1;''] \<and>
   map matched (match_all keywordPattern (js ''const a = 1;'')) = [js ''const a = 1;''] \<and>
   (\<exists>f\<in>set (extractCodeBlocks (js ''const a = 1;'')). suffix (js ''const a = 1;'') f)"
proof -
  have b: "backtick \<notin> set (js ''const a = 1;'')"
    by (simp add: js_def unit_of_def)
  have k: "map matched (match_all keywordPattern (js ''const a = 1;'')) = [js ''const a = 1;'']"
    and "map matched (match_all hookPattern (js ''const a = 1;'')) = []"
    and "map matched (match_all markupPattern (js ''const a = 1;'')) = []"
    by code_simp+
  moreover have "\<exists>pre post. (js ''const a = 1;'') = pre @ js ''const a = 1;'' @ post"
    by (intro exI [of _ "[]"]) simp
  ultimately show ?thesis
    using keyword_fragments [OF b] b by simp
qed

text \<open>
  C10: the report of the code category for a result set in which a result has raw content
  that yields no fragment. After the header, the overview and the blocks of the results
  before it, that result contributes its \<open>Example N:\<close> label, \<open>N\<close> its position
  counted from one, its source line, the description section when the content is present
  and not empty, and the closing empty line: no \<open>Code:\<close> sub-header is pushed for it.
  The blocks of the results after it follow.
\<close>

theorem code_report_without_fragments:
  assumes "results rs = before @ result # after"
    and "rawContent result = Some raw" and "extractCodeBlocks raw = []"
  shows "processSearchResults (Some rs) (js ''code'')
           = text_item (join [newline]
               ([js ''Code Examples & Implementation:\<newline>'']
                @ (case answer rs of
                     None \<Rightarrow> []
                   | Some a \<Rightarrow> if a = [] then [] else [js ''Overview:'', a @ [newline]])
                @ concat (map (\<lambda>(i, r). code_result i r) (enumerate 0 before))
                @ [js ''Example '' @ string_of_nat (length before + 1) @ js '':'',
                   js ''Source: '' @ url result]
                @ (case content result of
                     None \<Rightarrow> []
                   | Some c \<Rightarrow> if c = [] then [] else [newline # js ''Description:'', c])
                @ [[]]
                @ concat (map (\<lambda>(i, r). code_result i r)
                            (enumerate (Suc (length before)) after))))"
proof -
  from assms(2,3) have block: "code_result (length before) result
      = [js ''Example '' @ string_of_nat (length before + 1) @ js '':'',
         js ''Source: '' @ url result]
        @ (case content result of
             None \<Rightarrow> []
           | Some c \<Rightarrow> if c = [] then [] else [newline # js ''Description:'', c])
        @ [[]]"
    by (simp add: code_result_def content_lines_def split: option.splits)
  have "response_lines rs (js ''code'')
      = [js ''Code Examples & Implementation:\<newline>'']
        @ (case answer rs of
             None \<Rightarrow> []
           | Some a \<Rightarrow> if a = [] then [] else [js ''Overview:'', a @ [newline]])
        @ concat (map (\<lambda>(i, r). code_result i r) (enumerate 0 before))
        @ code_result (length before) result
        @ concat (map (\<lambda>(i, r). code_result i r) (enumerate (Suc (length before)) after))"
    by (simp add: response_lines_def answer_lines_def assms(1) enumerate_append_eq
        split: option.splits)
  with block show ?thesis
    by (simp add: processSearchResults_def)
qed

text \<open>C10 at a result set of two results: the first has a fenced block in its raw content,
  the second only prose.\<close>

theorem code_report_without_fragments_witness:
  "extractCodeBlocks (js ''Hooks are explained in prose only.'') = [] \<and>
   processSearchResults
     (Some \<lparr>answer = None,
            results =
              [\<lparr>url = js ''https://a.dev'', title = js ''Install'', content = None,
                rawContent = Some (js ''Run '' @ [backtick] @ js ''npm i'' @ [backtick])\<rparr>,
               \<lparr>url = js ''https://react.dev'', title = js ''React'',
                content = Some (js ''About hooks.''),
                rawContent = Some (js ''Hooks are explained in prose only.'')\<rparr>]\<rparr>)
     (js ''code'')
   = text_item
       (js ''Code Examples & Implementation:\<newline>\<newline>Example 1:\<newline>Source: https://a.dev\<newline>\<newline>Code:\<newline>npm i\<newline>\<newline>Example 2:\<newline>Source: https://react.dev\<newline>\<newline>Description:\<newline>About hooks.\<newline>'')"
proof -
  have e: "extractCodeBlocks (js ''Hooks are explained in prose only.'') = []"
    by code_simp
  have n: "string_of_nat (length [x] + 1) = js ''2''" for x :: search_result
    by code_simp
  have b: "code_result 0
      \<lparr>url = js ''https://a.dev'', title = js ''Install'', content = None,
       rawContent = Some (js ''Run '' @ [backtick] @ js ''npm i'' @ [backtick])\<rparr>
      = [js ''Example 1:'', js ''Source: https://a.dev'', newline # js ''Code:'', js ''npm i'', []]"
    by code_simp
  show ?thesis
    using code_report_without_fragments [where
        rs = "\<lparr>answer = None,
            results =
              [\<lparr>url = js ''https://a.dev'', title = js ''Install'', content = None,
                rawContent = Some (js ''Run '' @ [backtick] @ js ''npm i'' @ [backtick])\<rparr>,
               \<lparr>url = js ''https://react.dev'', title = js ''React'',
                content = Some (js ''About hooks.''),
                rawContent = Some (js ''Hooks are explained in prose only.'')\<rparr>]\<rparr>"
        and before = "[\<lparr>url = js ''https://a.dev'', title = js ''Install'', content = None,
                rawContent = Some (js ''Run '' @ [backtick] @ js ''npm i'' @ [backtick])\<rparr>]"
        and result = "\<lparr>url = js ''https://react.dev'', title = js ''React'',
                content = Some (js ''About hooks.''),
                rawContent = Some (js ''Hooks are explained in prose only.'')\<rparr>"
        and after = "[]" and raw = "js ''Hooks are explained in prose only.''"] e n b
    by (simp add: js_def unit_of_def)
qed

end
